theory Spec2Isabelle
  imports Main "HOL-Library.Word"
begin

section \<open>Strings\<close>

text \<open>
  A JavaScript string is a sequence of 16-bit code units. \<open>js\<close> writes an ASCII
  literal as such a sequence.
\<close>

type_synonym jsstring = "16 word list"

definition js :: "string \<Rightarrow> jsstring" where
  "js s = map of_char s"

text \<open>
  The code units that \<^verbatim>\<open>String.prototype.trim\<close> strips: WhiteSpace (TAB, VT, FF, SP,
  NBSP, ZWNBSP and the Unicode space separators) and LineTerminator (LF, CR, LS, PS).
\<close>

definition isWhiteSpace :: "16 word \<Rightarrow> bool" where
  "isWhiteSpace c =
     (c = 0x0009 \<or> c = 0x000A \<or> c = 0x000B \<or> c = 0x000C \<or> c = 0x000D \<or> c = 0x0020 \<or>
      c = 0x00A0 \<or> c = 0x1680 \<or> (0x2000 \<le> c \<and> c \<le> 0x200A) \<or> c = 0x2028 \<or>
      c = 0x2029 \<or> c = 0x202F \<or> c = 0x205F \<or> c = 0x3000 \<or> c = 0xFEFF)"

definition trim :: "jsstring \<Rightarrow> jsstring" where
  "trim s = rev (dropWhile isWhiteSpace (rev (dropWhile isWhiteSpace s)))"


section \<open>The search state and its reducer (useSearch.js)\<close>

text \<open>
  A normalised record as \<^verbatim>\<open>searchBooks\<close> produces it. \<open>year\<close> is the first
  publication year, \<open>None\<close> standing for the placeholder; \<open>coverUrl\<close> is \<open>None\<close>
  for \<^verbatim>\<open>null\<close>. The title is taken to be a string, as the widget treats it.
\<close>

record result =
  rid :: jsstring
  title :: jsstring
  author :: jsstring
  year :: "int option"
  coverUrl :: "jsstring option"

datatype status = Idle | Loading | Success | Error

record searchState =
  status :: status
  query :: jsstring
  results :: "result list"
  error :: "jsstring option"

definition initialState :: searchState where
  "initialState = \<lparr>status = Idle, query = [], results = [], error = None\<rparr>"

text \<open>\<open>OTHER\<close> is any action type the \<^verbatim>\<open>switch\<close> does not name.\<close>

datatype action =
    SET_QUERY jsstring
  | FETCH_START
  | FETCH_SUCCESS "result list"
  | FETCH_ERROR jsstring
  | CLEAR
  | OTHER

fun searchReducer :: "searchState \<Rightarrow> action \<Rightarrow> searchState" where
  "searchReducer s (SET_QUERY payload) = s\<lparr>query := payload\<rparr>"
| "searchReducer s FETCH_START = s\<lparr>status := Loading, error := None\<rparr>"
| "searchReducer s (FETCH_SUCCESS payload) = s\<lparr>status := Success, results := payload\<rparr>"
| "searchReducer s (FETCH_ERROR payload) =
     s\<lparr>status := Error, results := [], error := Some payload\<rparr>"
| "searchReducer s CLEAR = initialState"
| "searchReducer s OTHER = s"


section \<open>The hook: debounce timer and fetches (useSearch)\<close>

text \<open>
  The hook instance together with the part of the environment it acts on: the clock, the
  timers scheduled by \<^verbatim>\<open>setTimeout\<close> and not yet fired or cancelled (in scheduling
  order), the calls of \<^verbatim>\<open>fetchFn\<close> made so far, and the promises of those calls that
  have not settled. \<open>debounceTimer\<close> is the ref: \<open>None\<close> for \<^verbatim>\<open>null\<close>, else the
  identifier last returned by \<^verbatim>\<open>setTimeout\<close>, kept also after that timer has fired.
\<close>

record timer =
  tid :: nat
  due :: nat
  tquery :: jsstring

record fetch =
  fid :: nat
  fquery :: jsstring

record hook =
  state :: searchState
  debounceTimer :: "nat option"
  timers :: "timer list"
  nextTimer :: nat
  now :: nat
  fetchCalls :: "jsstring list"
  inflight :: "fetch list"
  nextFetch :: nat

definition initialHook :: hook where
  "initialHook =
     \<lparr>state = initialState, debounceTimer = None, timers = [], nextTimer = 0, now = 0,
      fetchCalls = [], inflight = [], nextFetch = 0\<rparr>"

definition dispatch :: "action \<Rightarrow> hook \<Rightarrow> hook" where
  "dispatch a h = h\<lparr>state := searchReducer (state h) a\<rparr>"

text \<open>\<^verbatim>\<open>clearTimeout\<close> of \<^verbatim>\<open>null\<close> or of a timer that is no longer pending does nothing.\<close>

definition clearTimeout :: "nat option \<Rightarrow> hook \<Rightarrow> hook" where
  "clearTimeout ident h =
     (case ident of
        None \<Rightarrow> h
      | Some i \<Rightarrow> h\<lparr>timers := filter (\<lambda>t. tid t \<noteq> i) (timers h)\<rparr>)"

text \<open>\<^verbatim>\<open>debounceTimer.current = setTimeout(callback, delay)\<close>, the callback closing over \<open>q\<close>.\<close>

definition setTimeout :: "jsstring \<Rightarrow> nat \<Rightarrow> hook \<Rightarrow> hook" where
  "setTimeout q delay h =
     h\<lparr>timers := timers h @ [\<lparr>tid = nextTimer h, due = now h + delay, tquery = q\<rparr>],
       debounceTimer := Some (nextTimer h),
       nextTimer := Suc (nextTimer h)\<rparr>"

definition search :: "nat \<Rightarrow> jsstring \<Rightarrow> hook \<Rightarrow> hook" where
  "search delay rawQuery h =
     (let query = trim rawQuery;
          h1 = dispatch (SET_QUERY rawQuery) h
      in if query = [] then dispatch CLEAR (clearTimeout (debounceTimer h1) h1)
         else setTimeout query delay (clearTimeout (debounceTimer h1) h1))"

definition clear :: "hook \<Rightarrow> hook" where
  "clear h = dispatch CLEAR (clearTimeout (debounceTimer h) h)"

text \<open>
  The timer's callback up to its \<^verbatim>\<open>await\<close>: it dispatches \<^verbatim>\<open>FETCH_START\<close> and calls
  \<^verbatim>\<open>fetchFn(query)\<close>, whose promise is then in flight.
\<close>

definition timerCallback :: "jsstring \<Rightarrow> hook \<Rightarrow> hook" where
  "timerCallback q h =
     (let h1 = dispatch FETCH_START h
      in h1\<lparr>fetchCalls := fetchCalls h1 @ [q],
             inflight := inflight h1 @ [\<lparr>fid = nextFetch h1, fquery = q\<rparr>],
             nextFetch := Suc (nextFetch h1)\<rparr>)"

text \<open>
  The rest of the callback, run when the promise settles: \<^verbatim>\<open>FETCH_SUCCESS\<close> with the
  results, or \<^verbatim>\<open>FETCH_ERROR\<close> with the message of what was thrown.
\<close>

datatype outcome = Resolved "result list" | Rejected jsstring

definition settle :: "nat \<Rightarrow> outcome \<Rightarrow> hook \<Rightarrow> hook" where
  "settle i out h =
     (if i \<in> set (map fid (inflight h))
      then dispatch (case out of Resolved rs \<Rightarrow> FETCH_SUCCESS rs | Rejected m \<Rightarrow> FETCH_ERROR m)
             (h\<lparr>inflight := filter (\<lambda>f. fid f \<noteq> i) (inflight h)\<rparr>)
      else h)"

text \<open>
  \<open>d\<close> milliseconds pass: every pending timer that is due by then fires, in scheduling
  order (one hook schedules all its timers with the same delay).
\<close>

definition advance :: "nat \<Rightarrow> hook \<Rightarrow> hook" where
  "advance d h =
     (let t = now h + d;
          ready = filter (\<lambda>x. due x \<le> t) (timers h);
          h1 = h\<lparr>now := t, timers := filter (\<lambda>x. \<not> due x \<le> t) (timers h)\<rparr>
      in foldl (\<lambda>h' x. timerCallback (tquery x) h') h1 ready)"

text \<open>What can happen to a hook instance, and a run of such events.\<close>

datatype event =
    Search jsstring
  | Clear
  | Advance nat
  | Settle nat outcome

fun step :: "nat \<Rightarrow> hook \<Rightarrow> event \<Rightarrow> hook" where
  "step delay h (Search rawQuery) = search delay rawQuery h"
| "step delay h Clear = clear h"
| "step delay h (Advance d) = advance d h"
| "step delay h (Settle i out) = settle i out h"

definition run :: "nat \<Rightarrow> hook \<Rightarrow> event list \<Rightarrow> hook" where
  "run delay h evs = foldl (step delay) h evs"


section \<open>The orchestrator (App.jsx) and its two surfaces\<close>

text \<open>
  \<^verbatim>\<open>App\<close> owns \<open>isOpen\<close> and \<open>activeIndex\<close> and one hook instance, created with
  \<^verbatim>\<open>delay: 400\<close>.
\<close>

record app =
  hook :: hook
  isOpen :: bool
  activeIndex :: int

definition initialApp :: app where
  "initialApp = \<lparr>hook = initialHook, isOpen = False, activeIndex = - 1\<rparr>"

text \<open>\<open>inside\<close> is \<^verbatim>\<open>wrapperRef.current.contains(event.target)\<close>, the wrapper being mounted.\<close>

definition handleClickOutside :: "bool \<Rightarrow> app \<Rightarrow> app" where
  "handleClickOutside inside a =
     (if \<not> inside then a\<lparr>isOpen := False, activeIndex := - 1\<rparr> else a)"

definition handleChange :: "jsstring \<Rightarrow> app \<Rightarrow> app" where
  "handleChange v a = a\<lparr>hook := search 400 v (hook a), isOpen := True, activeIndex := - 1\<rparr>"

definition handleClear :: "app \<Rightarrow> app" where
  "handleClear a = a\<lparr>hook := clear (hook a), isOpen := False, activeIndex := - 1\<rparr>"

definition handleArrowDown :: "app \<Rightarrow> app" where
  "handleArrowDown a =
     (if length (results (state (hook a))) > 0 then a\<lparr>activeIndex := 0\<rparr> else a)"

definition handleSelect :: "result \<Rightarrow> app \<Rightarrow> app" where
  "handleSelect r a =
     a\<lparr>hook := search 400 (title r) (hook a), isOpen := False, activeIndex := - 1\<rparr>"

definition showDropdown :: "app \<Rightarrow> bool" where
  "showDropdown a = (isOpen a \<and> length (trim (query (state (hook a)))) > 0)"

text \<open>
  What \<^verbatim>\<open>App\<close> renders below the input: nothing, or the dropdown container with the
  children whose conditions hold.
\<close>

datatype dropdownChild =
    SearchingMessage
  | ErrorMessage
  | NoResultsMessage jsstring
  | ResultsList "result list" int

definition dropdown :: "app \<Rightarrow> dropdownChild list option" where
  "dropdown a =
     (let s = state (hook a)
      in if showDropdown a
         then Some
           ((if status s = Loading then [SearchingMessage] else []) @
            (if status s = Error then [ErrorMessage] else []) @
            (if status s = Success \<and> length (results s) = 0
             then [NoResultsMessage (query s)] else []) @
            (if status s = Success \<and> length (results s) > 0
             then [ResultsList (results s) (activeIndex a)] else []))
         else None)"

datatype key = ArrowDown | ArrowUp | Enter | Escape | OtherKey

text \<open>
  \<^verbatim>\<open>SearchInput\<close>: its key handler (\<open>onClear\<close> is \<open>handleClear\<close>, \<open>onArrowDown\<close> is
  \<open>handleArrowDown\<close>) and its clear button, rendered when not loading and the value is
  not empty. Moving the focus is not modelled.
\<close>

definition SearchInput_handleKeyDown :: "key \<Rightarrow> app \<Rightarrow> app" where
  "SearchInput_handleKeyDown k a =
     (let a1 = (if k = Escape then handleClear a else a)
      in if k = ArrowDown then handleArrowDown a1 else a1)"

definition SearchInput_handleClear :: "app \<Rightarrow> app" where
  "SearchInput_handleClear a = handleClear a"

definition clearButtonRendered :: "app \<Rightarrow> bool" where
  "clearButtonRendered a =
     (\<not> status (state (hook a)) = Loading \<and> query (state (hook a)) \<noteq> [])"

text \<open>
  \<^verbatim>\<open>SearchResults\<close>: the key handler of the item at \<open>index\<close> (\<open>onSelect\<close> is
  \<open>handleSelect\<close>, \<open>onClose\<close> is \<open>handleClear\<close>). The list exists when \<^verbatim>\<open>App\<close>
  renders it.
\<close>

definition SearchResults_handleKeyDown :: "key \<Rightarrow> nat \<Rightarrow> app \<Rightarrow> app" where
  "SearchResults_handleKeyDown k index a =
     (let rs = results (state (hook a))
      in case k of
           ArrowDown \<Rightarrow> a\<lparr>activeIndex := min (activeIndex a + 1) (int (length rs) - 1)\<rparr>
         | ArrowUp \<Rightarrow> a\<lparr>activeIndex := max (activeIndex a - 1) 0\<rparr>
         | Enter \<Rightarrow> (if index < length rs then handleSelect (rs ! index) a else a)
         | Escape \<Rightarrow> handleClear a
         | OtherKey \<Rightarrow> a)"

definition listRendered :: "app \<Rightarrow> bool" where
  "listRendered a =
     (showDropdown a \<and> status (state (hook a)) = Success \<and>
      length (results (state (hook a))) > 0)"

text \<open>
  What can happen to the widget. Events on an item of the list or on the clear button
  occur only while that element is rendered.
\<close>

datatype uiEvent =
    InputChange jsstring
  | InputKeyDown key
  | ClearClick
  | ItemKeyDown key nat
  | ItemClick nat
  | MouseDown bool
  | TimePasses nat
  | FetchSettles nat outcome

fun appStep :: "app \<Rightarrow> uiEvent \<Rightarrow> app" where
  "appStep a (InputChange v) = handleChange v a"
| "appStep a (InputKeyDown k) = SearchInput_handleKeyDown k a"
| "appStep a ClearClick = (if clearButtonRendered a then SearchInput_handleClear a else a)"
| "appStep a (ItemKeyDown k i) =
     (if listRendered a \<and> i < length (results (state (hook a)))
      then SearchResults_handleKeyDown k i a else a)"
| "appStep a (ItemClick i) =
     (if listRendered a \<and> i < length (results (state (hook a)))
      then handleSelect (results (state (hook a)) ! i) a else a)"
| "appStep a (MouseDown inside) = handleClickOutside inside a"
| "appStep a (TimePasses d) = a\<lparr>hook := advance d (hook a)\<rparr>"
| "appStep a (FetchSettles i out) = a\<lparr>hook := settle i out (hook a)\<rparr>"

definition appRun :: "app \<Rightarrow> uiEvent list \<Rightarrow> app" where
  "appRun a evs = foldl appStep a evs"


section \<open>Predicates and sample data for the properties\<close>

text \<open>
  The timers still pending are at most one, and the ref names it. This is what makes
  \<^verbatim>\<open>clearTimeout(debounceTimer.current)\<close> cancel everything that is pending.
\<close>

definition pendingOk :: "hook \<Rightarrow> bool" where
  "pendingOk h =
     (length (timers h) \<le> 1 \<and> (\<forall>t \<in> set (timers h). debounceTimer h = Some (tid t)))"

text \<open>A pending timer holds the trimmed form of the query that the state holds.\<close>

definition timerQueryOk :: "hook \<Rightarrow> bool" where
  "timerQueryOk h = (\<forall>t \<in> set (timers h). tquery t = trim (query (state h)))"

text \<open>What the reducer maintains between the status and the other fields.\<close>

definition stateOk :: "searchState \<Rightarrow> bool" where
  "stateOk s =
     (case status s of
        Idle \<Rightarrow> results s = [] \<and> error s = None
      | Loading \<Rightarrow> error s = None
      | Error \<Rightarrow> results s = [] \<and> error s \<noteq> None
      | Success \<Rightarrow> True)"

fun isSearch :: "event \<Rightarrow> bool" where
  "isSearch (Search rawQuery) = True"
| "isSearch ev = False"

text \<open>
  A burst of submissions: each is followed by a pause of \<open>gap\<close> milliseconds before the
  next one arrives.
\<close>

fun burst :: "(jsstring \<times> nat) list \<Rightarrow> event list" where
  "burst [] = []"
| "burst ((rawQuery, gap) # rest) = Search rawQuery # Advance gap # burst rest"

definition inRange :: "app \<Rightarrow> bool" where
  "inRange a =
     (- 1 \<le> activeIndex a \<and> activeIndex a \<le> int (length (results (state (hook a)))) - 1)"

fun isFetchSettles :: "uiEvent \<Rightarrow> bool" where
  "isFetchSettles (FetchSettles i out) = True"
| "isFetchSettles ev = False"

text \<open>
  Sample data: a record as \<^verbatim>\<open>searchBooks\<close> normalises a document that has only a key
  and a title; the widget after three results have arrived and the second one is
  highlighted; and the widget after the user typed on, pressed the down arrow while the
  old results were still held, and the new fetch returned nothing; and the widget after
  the user moved to the third of three results and an older, slower fetch then settled
  with a single result.
\<close>

definition book :: "string \<Rightarrow> result" where
  "book t =
     \<lparr>rid = js t, title = js t, author = js ''Unknown Author'', year = None, coverUrl = None\<rparr>"

definition browsing :: app where
  "browsing =
     appRun initialApp
       [InputChange (js ''em''), TimePasses 400,
        FetchSettles 0 (Resolved [book ''Emma'', book ''Emil'', book ''Embers'']),
        InputKeyDown ArrowDown, ItemKeyDown ArrowDown 0]"

definition staleHighlight :: app where
  "staleHighlight =
     appRun initialApp
       [InputChange (js ''em''), TimePasses 400,
        FetchSettles 0 (Resolved [book ''Emma'', book ''Emil'', book ''Embers'']),
        InputChange (js ''emx''), InputKeyDown ArrowDown, TimePasses 400,
        FetchSettles 1 (Resolved [])]"

definition staleIndex :: app where
  "staleIndex =
     appRun initialApp
       [InputChange (js ''em''), TimePasses 400, InputChange (js ''emm''), TimePasses 400,
        FetchSettles 1 (Resolved [book ''Emma'', book ''Emil'', book ''Embers'']),
        InputKeyDown ArrowDown, ItemKeyDown ArrowDown 0, ItemKeyDown ArrowDown 1,
        FetchSettles 0 (Resolved [book ''Emma''])]"


section \<open>Trimming\<close>

lemma dropWhile_fixed: "xs = [] \<or> \<not> P (hd xs) \<Longrightarrow> dropWhile P xs = xs"
  by (cases xs) auto

lemma trim_ends:
  assumes ne: "trim s \<noteq> []"
  shows "\<not> isWhiteSpace (hd (trim s)) \<and> \<not> isWhiteSpace (last (trim s))"
proof -
  let ?t = "dropWhile isWhiteSpace s"
  let ?u = "dropWhile isWhiteSpace (rev ?t)"
  have tr: "trim s = rev ?u" by (simp add: trim_def)
  from ne tr have une: "?u \<noteq> []" by simp
  then have "\<not> isWhiteSpace (hd ?u)" by (rule hd_dropWhile)
  then have l: "\<not> isWhiteSpace (last (trim s))" using une by (simp add: tr last_rev)
  have t: "?t = rev ?u @ rev (takeWhile isWhiteSpace (rev ?t))"
    by (simp only: rev_append [symmetric] takeWhile_dropWhile_id rev_rev_ident)
  have tne: "?t \<noteq> []"
  proof
    assume e: "?t = []"
    have "?u = []" by (simp only: e rev.simps dropWhile.simps)
    with une show False by contradiction
  qed
  have "hd ?t = hd (rev ?u)" using une by (subst t) simp
  moreover have "\<not> isWhiteSpace (hd ?t)" using tne by (rule hd_dropWhile)
  ultimately show ?thesis using l tr by simp
qed

lemma trim_fixed:
  assumes "s = [] \<or> (\<not> isWhiteSpace (hd s) \<and> \<not> isWhiteSpace (last s))"
  shows "trim s = s"
proof (cases "s = []")
  case True
  then show ?thesis by (simp add: trim_def)
next
  case False
  with assms have h: "\<not> isWhiteSpace (hd s)" and l: "\<not> isWhiteSpace (last s)" by auto
  have 1: "dropWhile isWhiteSpace s = s" using h by (simp add: dropWhile_fixed)
  have "hd (rev s) = last s" using False by (simp add: hd_rev)
  then have 2: "dropWhile isWhiteSpace (rev s) = rev s" using l by (simp add: dropWhile_fixed)
  show ?thesis by (simp add: trim_def 1 2)
qed

lemma trim_idem: "trim (trim s) = trim s"
  using trim_ends [of s] by (intro trim_fixed) blast


section \<open>Runs of the hook\<close>

lemmas hook_eval = run_def search_def clear_def advance_def settle_def timerCallback_def
  setTimeout_def clearTimeout_def dispatch_def initialHook_def initialState_def trim_def js_def
  isWhiteSpace_def Let_def

lemma run_Nil: "run delay h [] = h"
  by (simp add: run_def)

lemma run_Cons: "run delay h (ev # evs) = run delay (step delay h ev) evs"
  by (simp add: run_def)

lemma run_append: "run delay h (evs @ evs') = run delay (run delay h evs) evs'"
  by (simp add: run_def)

lemma run_snoc: "run delay h (evs @ [ev]) = step delay (run delay h evs) ev"
  by (simp add: run_def)

text \<open>Timers that fire change the state and the fetches, and nothing about the timers.\<close>

lemma fire_fields:
  "fetchCalls (foldl (\<lambda>h' x. timerCallback (tquery x) h') h xs) = fetchCalls h @ map tquery xs"
  "timers (foldl (\<lambda>h' x. timerCallback (tquery x) h') h xs) = timers h"
  "debounceTimer (foldl (\<lambda>h' x. timerCallback (tquery x) h') h xs) = debounceTimer h"
  "now (foldl (\<lambda>h' x. timerCallback (tquery x) h') h xs) = now h"
  "nextTimer (foldl (\<lambda>h' x. timerCallback (tquery x) h') h xs) = nextTimer h"
  by (induction xs arbitrary: h) (simp_all add: timerCallback_def dispatch_def Let_def)

lemma fire_results:
  "results (state (foldl (\<lambda>h' x. timerCallback (tquery x) h') h xs)) = results (state h)"
  by (induction xs arbitrary: h) (simp_all add: timerCallback_def dispatch_def Let_def)

lemma advance_results: "results (state (advance d h)) = results (state h)"
  by (simp add: advance_def Let_def fire_results)

lemma fire_query:
  "query (state (foldl (\<lambda>h' x. timerCallback (tquery x) h') h xs)) = query (state h)"
  by (induction xs arbitrary: h) (simp_all add: timerCallback_def dispatch_def Let_def)

lemma advance_query: "query (state (advance d h)) = query (state h)"
  by (simp add: advance_def Let_def fire_query)

lemma clearTimeout_fields:
  "state (clearTimeout i h) = state h"
  "debounceTimer (clearTimeout i h) = debounceTimer h"
  "now (clearTimeout i h) = now h"
  "nextTimer (clearTimeout i h) = nextTimer h"
  "fetchCalls (clearTimeout i h) = fetchCalls h"
  "inflight (clearTimeout i h) = inflight h"
  "nextFetch (clearTimeout i h) = nextFetch h"
  by (simp_all add: clearTimeout_def split: option.splits)

lemma clearTimeout_timers_state:
  "timers (clearTimeout i (h\<lparr>state := s\<rparr>)) = timers (clearTimeout i h)"
  by (simp add: clearTimeout_def split: option.splits)

lemma clearTimeout_tracked:
  "pendingOk h \<Longrightarrow> timers (clearTimeout (debounceTimer h) h) = []"
  by (auto simp: pendingOk_def clearTimeout_def filter_empty_conv split: option.splits)

lemma clear_fields:
  "state (clear h) = initialState"
  "fetchCalls (clear h) = fetchCalls h"
  "inflight (clear h) = inflight h"
  "now (clear h) = now h"
  "debounceTimer (clear h) = debounceTimer h"
  by (simp_all add: clear_def dispatch_def clearTimeout_fields)

lemma clear_timers: "pendingOk h \<Longrightarrow> timers (clear h) = []"
  by (simp add: clear_def dispatch_def clearTimeout_tracked)

lemma search_empty:
  assumes "trim rawQuery = []"
  shows "search delay rawQuery h = clear h"
  using assms
  by (simp add: search_def clear_def Let_def dispatch_def clearTimeout_def split: option.splits)

lemma search_nonempty:
  assumes "pendingOk h" and "trim rawQuery \<noteq> []"
  shows "timers (search delay rawQuery h) =
           [\<lparr>tid = nextTimer h, due = now h + delay, tquery = trim rawQuery\<rparr>]"
    and "debounceTimer (search delay rawQuery h) = Some (nextTimer h)"
    and "fetchCalls (search delay rawQuery h) = fetchCalls h"
    and "inflight (search delay rawQuery h) = inflight h"
    and "now (search delay rawQuery h) = now h"
    and "state (search delay rawQuery h) = (state h)\<lparr>query := rawQuery\<rparr>"
proof -
  let ?h1 = "dispatch (SET_QUERY rawQuery) h"
  have s: "search delay rawQuery h =
      setTimeout (trim rawQuery) delay (clearTimeout (debounceTimer ?h1) ?h1)"
    using assms(2) by (simp add: search_def Let_def)
  show "timers (search delay rawQuery h) =
           [\<lparr>tid = nextTimer h, due = now h + delay, tquery = trim rawQuery\<rparr>]"
    by (simp add: s setTimeout_def clearTimeout_tracked [OF assms(1)] clearTimeout_timers_state
        clearTimeout_fields dispatch_def)
  show "debounceTimer (search delay rawQuery h) = Some (nextTimer h)"
    by (simp add: s setTimeout_def clearTimeout_fields dispatch_def)
  show "fetchCalls (search delay rawQuery h) = fetchCalls h"
    by (simp add: s setTimeout_def clearTimeout_fields dispatch_def)
  show "inflight (search delay rawQuery h) = inflight h"
    by (simp add: s setTimeout_def clearTimeout_fields dispatch_def)
  show "now (search delay rawQuery h) = now h"
    by (simp add: s setTimeout_def clearTimeout_fields dispatch_def)
  show "state (search delay rawQuery h) = (state h)\<lparr>query := rawQuery\<rparr>"
    by (simp add: s setTimeout_def clearTimeout_fields dispatch_def)
qed

lemma advance_early:
  assumes "timers h = [t]" and "now h + d < due t"
  shows "advance d h = h\<lparr>now := now h + d\<rparr>"
  using assms by (simp add: advance_def Let_def)

lemma advance_late:
  assumes "timers h = [t]" and "due t \<le> now h + d"
  shows "fetchCalls (advance d h) = fetchCalls h @ [tquery t]"
    and "timers (advance d h) = []"
    and "status (state (advance d h)) = Loading"
  using assms by (simp_all add: advance_def Let_def timerCallback_def dispatch_def)

lemma settle_inflight:
  assumes "i \<in> set (map fid (inflight h))"
  shows "state (settle i (Resolved rs) h) = (state h)\<lparr>status := Success, results := rs\<rparr>"
    and "state (settle i (Rejected m) h) =
           (state h)\<lparr>status := Error, results := [], error := Some m\<rparr>"
  using assms by (simp_all add: settle_def dispatch_def)


section \<open>Invariants of the hook\<close>

lemma initial_pendingOk: "pendingOk initialHook"
  by (simp add: pendingOk_def initialHook_def)

lemma step_pendingOk:
  assumes p: "pendingOk h"
  shows "pendingOk (step delay h ev)"
proof (cases ev)
  case (Search raw)
  show ?thesis
  proof (cases "trim raw = []")
    case True
    then show ?thesis using Search p by (simp add: search_empty clear_timers pendingOk_def)
  next
    case False
    then show ?thesis using Search p by (simp add: search_nonempty pendingOk_def)
  qed
next
  case Clear
  then show ?thesis using p by (simp add: clear_timers pendingOk_def)
next
  case (Advance d)
  then show ?thesis using p
    by (auto simp: advance_def Let_def fire_fields pendingOk_def
        intro: le_trans [OF length_filter_le])
next
  case (Settle i out)
  then show ?thesis using p by (simp add: settle_def dispatch_def pendingOk_def)
qed

lemma run_pendingOk: "pendingOk h \<Longrightarrow> pendingOk (run delay h evs)"
  by (induction evs arbitrary: h) (simp_all add: run_Nil run_Cons step_pendingOk)

lemma pendingOk_length: "pendingOk h \<Longrightarrow> length (timers h) \<le> 1"
  by (simp add: pendingOk_def)

lemma initial_stateOk: "stateOk (state initialHook)"
  by (simp add: stateOk_def initialHook_def initialState_def)

lemma searchReducer_stateOk: "stateOk s \<Longrightarrow> stateOk (searchReducer s a)"
  by (cases a) (auto simp: stateOk_def initialState_def split: status.splits)

lemma fire_stateOk:
  "stateOk (state h) \<Longrightarrow> stateOk (state (foldl (\<lambda>h' x. timerCallback (tquery x) h') h xs))"
  by (induction xs arbitrary: h)
     (simp_all add: timerCallback_def dispatch_def Let_def searchReducer_stateOk
        del: searchReducer.simps)

lemma step_stateOk:
  assumes s: "stateOk (state h)"
  shows "stateOk (state (step delay h ev))"
proof (cases ev)
  case (Search raw)
  then show ?thesis using s
    by (simp add: search_def Let_def dispatch_def clearTimeout_def setTimeout_def
        searchReducer_stateOk split: option.splits del: searchReducer.simps)
next
  case Clear
  then show ?thesis using s
    by (simp add: clear_def dispatch_def clearTimeout_def searchReducer_stateOk
        split: option.splits del: searchReducer.simps)
next
  case (Advance d)
  then show ?thesis using s by (simp add: advance_def Let_def fire_stateOk)
next
  case (Settle i out)
  then show ?thesis using s
    by (simp add: settle_def dispatch_def searchReducer_stateOk del: searchReducer.simps)
qed

lemma run_stateOk: "stateOk (state h) \<Longrightarrow> stateOk (state (run delay h evs))"
  by (induction evs arbitrary: h) (simp_all add: run_Nil run_Cons step_stateOk)

lemma step_timerQueryOk:
  assumes p: "pendingOk h" and q: "timerQueryOk h"
  shows "timerQueryOk (step delay h ev)"
proof (cases ev)
  case (Search raw)
  show ?thesis
  proof (cases "trim raw = []")
    case True
    then show ?thesis using Search p by (simp add: search_empty clear_timers timerQueryOk_def)
  next
    case False
    then show ?thesis using Search p by (simp add: search_nonempty timerQueryOk_def)
  qed
next
  case Clear
  then show ?thesis using p by (simp add: clear_timers timerQueryOk_def)
next
  case (Advance d)
  have "timers (advance d h) = filter (\<lambda>x. \<not> due x \<le> now h + d) (timers h)"
    by (simp add: advance_def Let_def fire_fields)
  then show ?thesis using Advance q by (simp add: timerQueryOk_def advance_query)
next
  case (Settle i out)
  then show ?thesis using q
    by (cases out) (simp_all add: settle_def dispatch_def timerQueryOk_def)
qed

lemma run_timerQueryOk: "timerQueryOk (run delay initialHook evs)"
proof (induction evs rule: rev_induct)
  case Nil
  then show ?case by (simp add: run_Nil timerQueryOk_def initialHook_def)
next
  case (snoc ev evs)
  have "pendingOk (run delay initialHook evs)" by (simp add: run_pendingOk initial_pendingOk)
  then show ?case unfolding run_snoc using snoc.IH by (rule step_timerQueryOk)
qed

text \<open>With no timer pending and no new submission, no fetch is ever issued.\<close>

lemma quiet_step:
  assumes "timers h = []" and "\<not> isSearch ev"
  shows "timers (step delay h ev) = [] \<and> fetchCalls (step delay h ev) = fetchCalls h"
proof (cases ev)
  case (Search raw)
  then show ?thesis using assms(2) by simp
next
  case Clear
  then show ?thesis using assms(1)
    by (simp add: clear_def dispatch_def clearTimeout_def split: option.splits)
next
  case (Advance d)
  then show ?thesis using assms(1) by (simp add: advance_def Let_def)
next
  case (Settle i out)
  then show ?thesis using assms(1) by (simp add: settle_def dispatch_def)
qed

lemma quiet_run:
  "timers h = [] \<Longrightarrow> \<forall>ev \<in> set evs. \<not> isSearch ev \<Longrightarrow>
     timers (run delay h evs) = [] \<and> fetchCalls (run delay h evs) = fetchCalls h"
proof (induction evs arbitrary: h)
  case Nil
  then show ?case by (simp add: run_Nil)
next
  case (Cons ev evs)
  from Cons.prems
  have q: "timers (step delay h ev) = [] \<and> fetchCalls (step delay h ev) = fetchCalls h"
    by (intro quiet_step) simp_all
  from Cons.prems have "\<forall>e \<in> set evs. \<not> isSearch e" by simp
  with q Cons.IH [of "step delay h ev"] show ?case by (simp add: run_Cons)
qed

text \<open>During a burst the pending timer is replaced before it is due.\<close>

lemma burst_quiet:
  assumes "pendingOk h" and "\<forall>(rawQuery, gap) \<in> set pre. trim rawQuery \<noteq> [] \<and> gap < delay"
  shows "pendingOk (run delay h (burst pre)) \<and>
         fetchCalls (run delay h (burst pre)) = fetchCalls h"
  using assms
proof (induction pre arbitrary: h)
  case Nil
  then show ?case by (simp add: run_Nil)
next
  case (Cons p pre)
  obtain rawQuery gap where p: "p = (rawQuery, gap)" by (cases p)
  from Cons.prems p have ne: "trim rawQuery \<noteq> []" and g: "gap < delay" by auto
  let ?h1 = "search delay rawQuery h"
  let ?t = "\<lparr>tid = nextTimer h, due = now h + delay, tquery = trim rawQuery\<rparr>"
  have t1: "timers ?h1 = [?t]" using Cons.prems(1) ne by (rule search_nonempty)
  have n1: "now ?h1 = now h" using Cons.prems(1) ne by (rule search_nonempty)
  have f1: "fetchCalls ?h1 = fetchCalls h" using Cons.prems(1) ne by (rule search_nonempty)
  have p1: "pendingOk ?h1"
    using step_pendingOk [OF Cons.prems(1), of delay "Search rawQuery"] by simp
  have a: "advance gap ?h1 = ?h1\<lparr>now := now ?h1 + gap\<rparr>"
    using t1 by (rule advance_early) (simp add: n1 g)
  have p2: "pendingOk (advance gap ?h1)" using p1 by (simp add: a pendingOk_def)
  have f2: "fetchCalls (advance gap ?h1) = fetchCalls h" by (simp add: a f1)
  from Cons.prems(2)
  have "\<forall>(rawQuery, gap) \<in> set pre. trim rawQuery \<noteq> [] \<and> gap < delay" by simp
  with Cons.IH [OF p2] f2 show ?case by (simp add: p run_Cons)
qed

text \<open>Every query of a fetch call or of a pending timer is the trimmed text of a submission.\<close>

lemma step_fetchCalls:
  "set (fetchCalls (step delay h ev)) \<subseteq> set (fetchCalls h) \<union> tquery ` set (timers h)"
proof (cases ev)
  case (Search raw)
  then show ?thesis
    by (auto simp: search_def Let_def dispatch_def clearTimeout_def setTimeout_def
        split: option.splits)
next
  case Clear
  then show ?thesis by (simp add: clear_fields)
next
  case (Advance d)
  then show ?thesis by (auto simp: advance_def Let_def fire_fields)
next
  case (Settle i out)
  then show ?thesis by (simp add: settle_def dispatch_def)
qed

lemma step_timers:
  "tquery ` set (timers (step delay h ev)) \<subseteq>
     tquery ` set (timers h) \<union> {q. q \<noteq> [] \<and> (\<exists>raw. ev = Search raw \<and> q = trim raw)}"
proof (cases ev)
  case (Search raw)
  then show ?thesis
    by (auto simp: search_def Let_def dispatch_def clearTimeout_def setTimeout_def
        split: option.splits)
next
  case Clear
  then show ?thesis
    by (auto simp: clear_def dispatch_def clearTimeout_def split: option.splits)
next
  case (Advance d)
  then show ?thesis by (auto simp: advance_def Let_def fire_fields)
next
  case (Settle i out)
  then show ?thesis by (simp add: settle_def dispatch_def)
qed

lemma run_queries:
  "set (fetchCalls (run delay initialHook evs)) \<union> tquery ` set (timers (run delay initialHook evs))
     \<subseteq> {q. q \<noteq> [] \<and> (\<exists>raw. Search raw \<in> set evs \<and> q = trim raw)}"
proof (induction evs rule: rev_induct)
  case Nil
  then show ?case by (simp add: run_Nil initialHook_def)
next
  case (snoc ev evs)
  let ?h = "run delay initialHook evs"
  define S where "S = {q. q \<noteq> [] \<and> (\<exists>raw. Search raw \<in> set evs \<and> q = trim raw)}"
  define N where "N = {q. q \<noteq> [] \<and> (\<exists>raw. ev = Search raw \<and> q = trim raw)}"
  define S' where
    "S' = {q. q \<noteq> [] \<and> (\<exists>raw. Search raw \<in> set (evs @ [ev]) \<and> q = trim raw)}"
  have f: "set (fetchCalls (step delay ?h ev)) \<subseteq> set (fetchCalls ?h) \<union> tquery ` set (timers ?h)"
    by (rule step_fetchCalls)
  have t: "tquery ` set (timers (step delay ?h ev)) \<subseteq> tquery ` set (timers ?h) \<union> N"
    unfolding N_def by (rule step_timers)
  have i: "set (fetchCalls ?h) \<union> tquery ` set (timers ?h) \<subseteq> S"
    unfolding S_def by (rule snoc.IH)
  have m: "S \<subseteq> S'" and n: "N \<subseteq> S'" by (auto simp: S_def N_def S'_def)
  have "set (fetchCalls (step delay ?h ev)) \<union> tquery ` set (timers (step delay ?h ev)) \<subseteq> S'"
    using f t i m n by blast
  then show ?case unfolding run_snoc S'_def .
qed


section \<open>Runs of the widget\<close>

lemmas app_eval = appRun_def initialApp_def handleChange_def handleClear_def handleArrowDown_def
  handleSelect_def handleClickOutside_def SearchInput_handleKeyDown_def SearchInput_handleClear_def
  SearchResults_handleKeyDown_def clearButtonRendered_def listRendered_def showDropdown_def
  book_def

lemma appRun_Nil: "appRun a [] = a"
  by (simp add: appRun_def)

lemma appRun_Cons: "appRun a (ev # evs) = appRun (appStep a ev) evs"
  by (simp add: appRun_def)

text \<open>Whatever happens to the widget is, for its hook, one event of the hook or nothing.\<close>

lemma hook_appStep:
  "hook (appStep a ev) = hook a \<or> (\<exists>e. hook (appStep a ev) = step 400 (hook a) e)"
proof (cases ev)
  case (InputChange v)
  have "hook (appStep a ev) = step 400 (hook a) (Search v)"
    by (simp add: InputChange handleChange_def)
  then show ?thesis by blast
next
  case (InputKeyDown k)
  have "hook (appStep a ev) = hook a \<or> hook (appStep a ev) = step 400 (hook a) Clear"
    by (simp add: InputKeyDown SearchInput_handleKeyDown_def handleClear_def
        handleArrowDown_def Let_def)
  then show ?thesis by blast
next
  case ClearClick
  have "hook (appStep a ev) = hook a \<or> hook (appStep a ev) = step 400 (hook a) Clear"
    by (simp add: ClearClick SearchInput_handleClear_def handleClear_def)
  then show ?thesis by blast
next
  case (ItemKeyDown k i)
  have "hook (appStep a ev) = hook a \<or> hook (appStep a ev) = step 400 (hook a) Clear
      \<or> hook (appStep a ev) = step 400 (hook a) (Search (title (results (state (hook a)) ! i)))"
    by (cases k)
       (simp_all add: ItemKeyDown SearchResults_handleKeyDown_def handleClear_def
          handleSelect_def Let_def)
  then show ?thesis by blast
next
  case (ItemClick i)
  have "hook (appStep a ev) = hook a
      \<or> hook (appStep a ev) = step 400 (hook a) (Search (title (results (state (hook a)) ! i)))"
    by (simp add: ItemClick handleSelect_def)
  then show ?thesis by blast
next
  case (MouseDown inside)
  then show ?thesis by (simp add: handleClickOutside_def)
next
  case (TimePasses d)
  have "hook (appStep a ev) = step 400 (hook a) (Advance d)" by (simp add: TimePasses)
  then show ?thesis by blast
next
  case (FetchSettles i out)
  have "hook (appStep a ev) = step 400 (hook a) (Settle i out)" by (simp add: FetchSettles)
  then show ?thesis by blast
qed

lemma initialApp_pendingOk: "pendingOk (hook initialApp)"
  by (simp add: initialApp_def initial_pendingOk)

lemma appStep_pendingOk: "pendingOk (hook a) \<Longrightarrow> pendingOk (hook (appStep a ev))"
  using hook_appStep [of a ev] step_pendingOk [of "hook a" 400] by auto

lemma appRun_pendingOk: "pendingOk (hook a) \<Longrightarrow> pendingOk (hook (appRun a evs))"
  by (induction evs arbitrary: a) (simp_all add: appRun_Nil appRun_Cons appStep_pendingOk)

lemma handleClear_fields:
  "isOpen (handleClear a) = False"
  "activeIndex (handleClear a) = - 1"
  "state (hook (handleClear a)) = initialState"
  by (simp_all add: handleClear_def clear_fields)

lemma browsing_eq:
  "browsing =
     \<lparr>hook = \<lparr>state = \<lparr>status = Success, query = js ''em'',
                 results = [book ''Emma'', book ''Emil'', book ''Embers''], error = None\<rparr>,
              debounceTimer = Some 0, timers = [], nextTimer = 1, now = 400,
              fetchCalls = [js ''em''], inflight = [], nextFetch = 1\<rparr>,
       isOpen = True, activeIndex = 1\<rparr>"
  by (simp add: browsing_def app_eval hook_eval)

text \<open>The active index never falls below \<open>-1\<close>.\<close>

lemma appStep_lower:
  assumes l: "- 1 \<le> activeIndex a"
  shows "- 1 \<le> activeIndex (appStep a ev)"
proof (cases ev)
  case (InputKeyDown k)
  then show ?thesis using l
    by (cases k)
       (simp_all add: SearchInput_handleKeyDown_def handleClear_def handleArrowDown_def)
next
  case (ItemKeyDown k i)
  then show ?thesis using l
    by (cases k)
       (auto simp: SearchResults_handleKeyDown_def handleClear_def handleSelect_def Let_def
          listRendered_def)
qed (simp_all add: l handleChange_def SearchInput_handleClear_def handleClear_def
      handleSelect_def handleClickOutside_def)

lemma appRun_lower: "- 1 \<le> activeIndex a \<Longrightarrow> - 1 \<le> activeIndex (appRun a evs)"
  by (induction evs arbitrary: a) (simp_all add: appRun_Nil appRun_Cons appStep_lower)

text \<open>Everything but the settling of a fetch keeps the active index within the results.\<close>

lemma appStep_inRange:
  assumes "inRange a" and "\<not> isFetchSettles ev"
  shows "inRange (appStep a ev)"
proof (cases ev)
  case (InputChange v)
  then show ?thesis by (simp add: inRange_def handleChange_def)
next
  case (InputKeyDown k)
  then show ?thesis using assms(1)
    by (cases k)
       (auto simp: inRange_def SearchInput_handleKeyDown_def handleClear_fields
          handleArrowDown_def initialState_def)
next
  case ClearClick
  then show ?thesis using assms(1)
    by (simp add: inRange_def SearchInput_handleClear_def handleClear_fields initialState_def)
next
  case (ItemKeyDown k i)
  then show ?thesis using assms(1)
    by (cases k)
       (auto simp: inRange_def SearchResults_handleKeyDown_def handleClear_fields
          handleSelect_def initialState_def Let_def listRendered_def)
next
  case (ItemClick i)
  then show ?thesis using assms(1) by (simp add: inRange_def handleSelect_def)
next
  case (MouseDown inside)
  then show ?thesis using assms(1) by (simp add: inRange_def handleClickOutside_def)
next
  case (TimePasses d)
  then show ?thesis using assms(1) by (simp add: inRange_def advance_results)
next
  case (FetchSettles i out)
  then show ?thesis using assms(2) by simp
qed

lemma appRun_inRange:
  "inRange a \<Longrightarrow> \<forall>ev \<in> set evs. \<not> isFetchSettles ev \<Longrightarrow> inRange (appRun a evs)"
  by (induction evs arbitrary: a) (simp_all add: appRun_Nil appRun_Cons appStep_inRange)

text \<open>Repeated arrow keys in the list, in closed form; the hook is not touched.\<close>

lemma down_iterated:
  "hook ((SearchResults_handleKeyDown ArrowDown i ^^ Suc n) a) = hook a \<and>
   activeIndex ((SearchResults_handleKeyDown ArrowDown i ^^ Suc n) a) =
     min (activeIndex a + int (Suc n)) (int (length (results (state (hook a)))) - 1)"
  by (induction n) (auto simp: SearchResults_handleKeyDown_def Let_def)

lemma up_iterated:
  "hook ((SearchResults_handleKeyDown ArrowUp i ^^ Suc n) a) = hook a \<and>
   activeIndex ((SearchResults_handleKeyDown ArrowUp i ^^ Suc n) a) =
     max (activeIndex a - int (Suc n)) 0"
  by (induction n) (auto simp: SearchResults_handleKeyDown_def Let_def)


section \<open>Properties of the search state machine\<close>

subsection \<open>C1: a fetch that settles after \<open>clear\<close> or after a new submission\<close>

text \<open>
  C1, as stated, asks that a fetch in flight when \<open>clear\<close> is called (or when a new
  non-empty text has since been submitted) leaves status, query, results and error
  unchanged when it settles. The hook keeps no token of the fetch it issued last: the
  callback dispatches \<^verbatim>\<open>FETCH_SUCCESS\<close> or \<^verbatim>\<open>FETCH_ERROR\<close> whenever its promise
  settles. Here \<open>clear\<close> is called while fetch 0 is in flight, the state is the initial
  one, and the fetch settling afterwards changes status and results (or status and error).
\<close>

theorem stale_fetch_counterexample:
  "state (run 400 initialHook [Search (js ''em''), Advance 400, Clear]) =
     \<lparr>status = Idle, query = [], results = [], error = None\<rparr>
   \<and> map fid (inflight (run 400 initialHook [Search (js ''em''), Advance 400, Clear])) = [0]
   \<and> state (run 400 initialHook
        [Search (js ''em''), Advance 400, Clear, Settle 0 (Resolved [book ''Emma''])]) =
     \<lparr>status = Success, query = [], results = [book ''Emma''], error = None\<rparr>
   \<and> state (run 400 initialHook
        [Search (js ''em''), Advance 400, Clear, Settle 0 (Rejected (js ''Failed to fetch''))]) =
     \<lparr>status = Error, query = [], results = [], error = Some (js ''Failed to fetch'')\<rparr>"
  by (simp add: hook_eval book_def)

text \<open>
  C1, amended. In every reachable state of the hook, \<open>clear\<close> resets the state to the
  initial one and leaves no timer pending. A fetch \<open>i\<close> that is in flight then is not
  suppressed: settling after
  \<open>clear\<close>, it sets status to success and results to its payload, or status to error,
  results to empty and error to its message; settling after a new non-empty submission,
  it does the same to the state that holds the new query. Only the query is left as it
  was.
\<close>

theorem stale_fetch_applies:
  "state (clear (run delay initialHook evs)) = initialState
   \<and> timers (clear (run delay initialHook evs)) = []
   \<and> (i \<in> set (map fid (inflight (run delay initialHook evs))) \<longrightarrow>
       state (settle i (Resolved rs) (clear (run delay initialHook evs))) =
         \<lparr>status = Success, query = [], results = rs, error = None\<rparr>
     \<and> state (settle i (Rejected m) (clear (run delay initialHook evs))) =
         \<lparr>status = Error, query = [], results = [], error = Some m\<rparr>
     \<and> (trim rawQuery \<noteq> [] \<longrightarrow>
         state (settle i (Resolved rs) (search delay rawQuery (run delay initialHook evs))) =
           (state (run delay initialHook evs))
             \<lparr>query := rawQuery, status := Success, results := rs\<rparr>
       \<and> state (settle i (Rejected m) (search delay rawQuery (run delay initialHook evs))) =
           (state (run delay initialHook evs))
             \<lparr>query := rawQuery, status := Error, results := [], error := Some m\<rparr>))"
proof -
  let ?h = "run delay initialHook evs"
  have p: "pendingOk ?h" by (simp add: run_pendingOk initial_pendingOk)
  have 1: "state (clear ?h) = initialState" by (simp add: clear_fields)
  have 2: "timers (clear ?h) = []" using p by (rule clear_timers)
  have 3: "state (settle i (Resolved rs) (clear ?h)) =
        \<lparr>status = Success, query = [], results = rs, error = None\<rparr>
      \<and> state (settle i (Rejected m) (clear ?h)) =
        \<lparr>status = Error, query = [], results = [], error = Some m\<rparr>"
    if fl: "i \<in> set (map fid (inflight ?h))"
  proof -
    have c: "i \<in> set (map fid (inflight (clear ?h)))" using fl by (simp add: clear_fields)
    show ?thesis by (simp add: settle_inflight [OF c] clear_fields initialState_def)
  qed
  have 4: "state (settle i (Resolved rs) (search delay rawQuery ?h)) =
             (state ?h)\<lparr>query := rawQuery, status := Success, results := rs\<rparr>
         \<and> state (settle i (Rejected m) (search delay rawQuery ?h)) =
             (state ?h)\<lparr>query := rawQuery, status := Error, results := [], error := Some m\<rparr>"
    if fl: "i \<in> set (map fid (inflight ?h))" and ne: "trim rawQuery \<noteq> []"
  proof -
    have s: "i \<in> set (map fid (inflight (search delay rawQuery ?h)))"
      using fl by (simp add: search_nonempty(4) [OF p ne])
    show ?thesis by (simp add: settle_inflight [OF s] search_nonempty(6) [OF p ne])
  qed
  show ?thesis using 1 2 3 4 by blast
qed

theorem stale_fetch_applies_witness:
  "0 \<in> set (map fid (inflight (run 400 initialHook [Search (js ''em''), Advance 400])))
   \<and> trim (js ''emm'') \<noteq> []
   \<and> state (settle 0 (Resolved [book ''Emma''])
        (clear (run 400 initialHook [Search (js ''em''), Advance 400]))) =
       \<lparr>status = Success, query = [], results = [book ''Emma''], error = None\<rparr>
   \<and> state (settle 0 (Resolved [book ''Emma''])
        (search 400 (js ''emm'') (run 400 initialHook [Search (js ''em''), Advance 400]))) =
       \<lparr>status = Success, query = js ''emm'', results = [book ''Emma''], error = None\<rparr>"
proof -
  have i: "0 \<in> set (map fid (inflight (run 400 initialHook [Search (js ''em''), Advance 400])))"
    by (simp add: hook_eval)
  have t: "trim (js ''emm'') \<noteq> []" by (simp add: hook_eval)
  have s: "state (run 400 initialHook [Search (js ''em''), Advance 400]) =
      \<lparr>status = Loading, query = js ''em'', results = [], error = None\<rparr>"
    by (simp add: hook_eval)
  show ?thesis
    using stale_fetch_applies
        [where delay = 400 and evs = "[Search (js ''em''), Advance 400]" and i = 0
           and rs = "[book ''Emma'']" and m = "js ''Failed to fetch''"
           and rawQuery = "js ''emm''"]
      i t
    by (simp add: s)
qed


subsection \<open>C2: a burst of submissions issues one fetch\<close>

text \<open>
  C2. From any reachable state of the hook, let texts that are non-empty after trimming
  be submitted one after the other, each less than \<open>delay\<close> milliseconds after the one
  before. Then no fetch is issued during the burst, nor while less than \<open>delay\<close> has
  passed since the last submission; once \<open>delay\<close> has passed, exactly one fetch has been
  issued, with the trimmed text of the last submission, and it stays the only one
  whatever time passes and whichever fetches settle, until something is submitted
  again. After each submission the only pending timer is the new one, due \<open>delay\<close>
  after that submission.
\<close>

theorem burst_one_fetch:
  assumes "\<forall>(rawQuery, gap) \<in> set pre. trim rawQuery \<noteq> [] \<and> gap < delay"
    and "trim lastQuery \<noteq> []"
    and "delay \<le> d" and "d' < delay"
    and "\<forall>ev \<in> set later. \<not> isSearch ev"
  shows "fetchCalls (run delay (run delay initialHook evs) (burst pre @ [Search lastQuery])) =
           fetchCalls (run delay initialHook evs)
       \<and> fetchCalls (run delay (run delay initialHook evs)
            (burst pre @ [Search lastQuery, Advance d'])) =
           fetchCalls (run delay initialHook evs)
       \<and> fetchCalls (run delay (run delay initialHook evs)
            (burst pre @ [Search lastQuery, Advance d])) =
           fetchCalls (run delay initialHook evs) @ [trim lastQuery]
       \<and> fetchCalls (run delay (run delay initialHook evs)
            (burst pre @ [Search lastQuery, Advance d] @ later)) =
           fetchCalls (run delay initialHook evs) @ [trim lastQuery]
       \<and> timers (run delay (run delay initialHook evs) (burst pre @ [Search lastQuery])) =
           [\<lparr>tid = nextTimer (run delay (run delay initialHook evs) (burst pre)),
             due = now (run delay (run delay initialHook evs) (burst pre)) + delay,
             tquery = trim lastQuery\<rparr>]"
proof -
  let ?h = "run delay initialHook evs"
  let ?hb = "run delay ?h (burst pre)"
  let ?hs = "search delay lastQuery ?hb"
  let ?t = "\<lparr>tid = nextTimer ?hb, due = now ?hb + delay, tquery = trim lastQuery\<rparr>"
  have p: "pendingOk ?h" by (simp add: run_pendingOk initial_pendingOk)
  from burst_quiet [OF p assms(1)]
  have pb: "pendingOk ?hb" and fb: "fetchCalls ?hb = fetchCalls ?h" by simp_all
  have ts: "timers ?hs = [?t]" using pb assms(2) by (rule search_nonempty)
  have ns: "now ?hs = now ?hb" using pb assms(2) by (rule search_nonempty)
  have fs: "fetchCalls ?hs = fetchCalls ?h" using search_nonempty(3) [OF pb assms(2)] fb by simp
  have early: "advance d' ?hs = ?hs\<lparr>now := now ?hs + d'\<rparr>"
    using ts by (rule advance_early) (simp add: ns assms(4))
  have due: "due ?t \<le> now ?hs + d" by (simp add: ns assms(3))
  have late: "fetchCalls (advance d ?hs) = fetchCalls ?hs @ [tquery ?t]"
    using ts due by (rule advance_late)
  have none: "timers (advance d ?hs) = []"
    using ts due by (rule advance_late)
  have after: "fetchCalls (run delay (advance d ?hs) later) = fetchCalls (advance d ?hs)"
    using quiet_run [OF none assms(5)] by simp
  show ?thesis by (simp add: run_append run_Cons run_Nil fs ts early late after)
qed

theorem burst_one_fetch_witness:
  "trim (js ''Harry P '') = js ''Harry P''
   \<and> fetchCalls (run 400 initialHook
       [Search (js ''H''), Advance 100, Search (js ''Ha''), Advance 399,
        Search (js ''Harry''), Advance 100, Search (js ''Harry P '')]) = []
   \<and> fetchCalls (run 400 initialHook
       [Search (js ''H''), Advance 100, Search (js ''Ha''), Advance 399,
        Search (js ''Harry''), Advance 100, Search (js ''Harry P ''), Advance 400]) =
       [js ''Harry P'']
   \<and> fetchCalls (run 400 initialHook
       [Search (js ''H''), Advance 100, Search (js ''Ha''), Advance 399,
        Search (js ''Harry''), Advance 100, Search (js ''Harry P ''), Advance 400,
        Settle 0 (Resolved [book ''Harry Potter'']), Advance 1000]) =
       [js ''Harry P'']"
proof -
  have pre: "\<forall>(rawQuery, gap) \<in> set [(js ''H'', 100), (js ''Ha'', 399), (js ''Harry'', 100)].
      trim rawQuery \<noteq> [] \<and> gap < (400::nat)"
    by (simp add: hook_eval)
  have t: "trim (js ''Harry P '') = js ''Harry P''" by (simp add: hook_eval)
  have l: "trim (js ''Harry P '') \<noteq> []" by (simp add: hook_eval)
  have d: "(400::nat) \<le> 400" and d': "(399::nat) < 400" by simp_all
  have q: "\<forall>ev \<in> set [Settle 0 (Resolved [book ''Harry Potter'']), Advance 1000].
      \<not> isSearch ev"
    by simp
  have f: "fetchCalls initialHook = []" by (simp add: initialHook_def)
  show ?thesis
    using burst_one_fetch [OF pre l d d' q, of "[]"]
    by (simp add: run_Nil t f)
qed


subsection \<open>C5: the shape of the reachable states\<close>

text \<open>
  C5, as stated, asks that results be non-empty only when the status is success, that
  error be set only when the status is error, and that at most one timer or fetch be
  outstanding. \<^verbatim>\<open>FETCH_START\<close> keeps the results of the search before, so they are
  still held while the next fetch is loading; a timer that fires starts its fetch
  whether or not an earlier one has settled, so two fetches are in flight together; and
  \<^verbatim>\<open>FETCH_SUCCESS\<close> keeps the error that an overlapping fetch has set.
\<close>

theorem reachable_state_counterexample:
  "results (state (run 400 initialHook
      [Search (js ''em''), Advance 400, Settle 0 (Resolved [book ''Emma'']),
       Search (js ''emm''), Advance 400])) = [book ''Emma'']
   \<and> status (state (run 400 initialHook
      [Search (js ''em''), Advance 400, Settle 0 (Resolved [book ''Emma'']),
       Search (js ''emm''), Advance 400])) = Loading
   \<and> map fid (inflight (run 400 initialHook
      [Search (js ''em''), Advance 400, Search (js ''emm''), Advance 400])) = [0, 1]
   \<and> error (state (run 400 initialHook
      [Search (js ''em''), Advance 400, Search (js ''emm''), Advance 400,
       Settle 0 (Rejected (js ''Failed to fetch'')), Settle 1 (Resolved [book ''Emma''])])) =
       Some (js ''Failed to fetch'')
   \<and> status (state (run 400 initialHook
      [Search (js ''em''), Advance 400, Search (js ''emm''), Advance 400,
       Settle 0 (Rejected (js ''Failed to fetch'')), Settle 1 (Resolved [book ''Emma''])])) =
       Success"
  by (simp add: hook_eval book_def)

text \<open>
  C5, amended. In every reachable state of the hook, results is non-empty only when the
  status is success or loading, error is set only when the status is error or success,
  and at most one debounce timer is pending. (Nothing bounds the fetches in flight.)
\<close>

theorem reachable_state_shape:
  "(results (state (run delay initialHook evs)) \<noteq> [] \<longrightarrow>
      status (state (run delay initialHook evs)) = Success \<or>
      status (state (run delay initialHook evs)) = Loading)
   \<and> (error (state (run delay initialHook evs)) \<noteq> None \<longrightarrow>
      status (state (run delay initialHook evs)) = Error \<or>
      status (state (run delay initialHook evs)) = Success)
   \<and> length (timers (run delay initialHook evs)) \<le> 1"
proof -
  let ?h = "run delay initialHook evs"
  have s: "stateOk (state ?h)" by (simp add: run_stateOk initial_stateOk)
  have p: "pendingOk ?h" by (simp add: run_pendingOk initial_pendingOk)
  from s have "results (state ?h) \<noteq> [] \<longrightarrow>
      status (state ?h) = Success \<or> status (state ?h) = Loading"
    by (cases "status (state ?h)") (simp_all add: stateOk_def)
  moreover from s have "error (state ?h) \<noteq> None \<longrightarrow>
      status (state ?h) = Error \<or> status (state ?h) = Success"
    by (cases "status (state ?h)") (simp_all add: stateOk_def)
  moreover from p have "length (timers ?h) \<le> 1" by (rule pendingOk_length)
  ultimately show ?thesis by blast
qed

theorem reachable_state_shape_witness:
  "results (state (run 400 initialHook
      [Search (js ''em''), Advance 400, Settle 0 (Resolved [book ''Emma''])])) \<noteq> []
   \<and> status (state (run 400 initialHook
      [Search (js ''em''), Advance 400, Settle 0 (Resolved [book ''Emma''])])) = Success
   \<and> error (state (run 400 initialHook
      [Search (js ''em''), Advance 400, Settle 0 (Rejected (js ''Failed to fetch''))])) \<noteq> None
   \<and> status (state (run 400 initialHook
      [Search (js ''em''), Advance 400, Settle 0 (Rejected (js ''Failed to fetch''))])) = Error
   \<and> length (timers (run 400 initialHook
      [Search (js ''em''), Advance 400, Search (js ''emm''), Search (js ''emma'')])) = 1"
proof -
  have r: "state (run 400 initialHook
      [Search (js ''em''), Advance 400, Settle 0 (Resolved [book ''Emma''])]) =
      \<lparr>status = Success, query = js ''em'', results = [book ''Emma''], error = None\<rparr>"
    by (simp add: hook_eval)
  have e: "state (run 400 initialHook
      [Search (js ''em''), Advance 400, Settle 0 (Rejected (js ''Failed to fetch''))]) =
      \<lparr>status = Error, query = js ''em'', results = [],
       error = Some (js ''Failed to fetch'')\<rparr>"
    by (simp add: hook_eval)
  have t: "timers (run 400 initialHook
      [Search (js ''em''), Advance 400, Search (js ''emm''), Search (js ''emma'')]) =
      [\<lparr>tid = 2, due = 800, tquery = js ''emma''\<rparr>]"
    by (simp add: hook_eval)
  show ?thesis
    using reachable_state_shape [of 400
        "[Search (js ''em''), Advance 400, Settle 0 (Resolved [book ''Emma''])]"]
      reachable_state_shape [of 400
        "[Search (js ''em''), Advance 400, Settle 0 (Rejected (js ''Failed to fetch''))]"]
      reachable_state_shape [of 400
        "[Search (js ''em''), Advance 400, Search (js ''emm''), Search (js ''emma'')]"]
    by (simp add: r e t)
qed


subsection \<open>C6: submitting empty or whitespace-only text\<close>

text \<open>
  C6. In every reachable state of the hook, submitting a text that is empty after
  trimming yields at once the state with status idle, query \<open>""\<close>, no results and no
  error; no timer is pending afterwards; no fetch is issued by the submission, and none
  is issued later either, whatever time passes and whichever fetches settle, until
  something is submitted again.
\<close>

theorem empty_submit_clears:
  assumes "trim rawQuery = []" and "\<forall>ev \<in> set later. \<not> isSearch ev"
  shows "state (search delay rawQuery (run delay initialHook evs)) =
           \<lparr>status = Idle, query = [], results = [], error = None\<rparr>
       \<and> timers (search delay rawQuery (run delay initialHook evs)) = []
       \<and> fetchCalls (search delay rawQuery (run delay initialHook evs)) =
           fetchCalls (run delay initialHook evs)
       \<and> fetchCalls (run delay (search delay rawQuery (run delay initialHook evs)) later) =
           fetchCalls (run delay initialHook evs)"
proof -
  let ?h = "run delay initialHook evs"
  have p: "pendingOk ?h" by (simp add: run_pendingOk initial_pendingOk)
  have s: "search delay rawQuery ?h = clear ?h" using assms(1) by (rule search_empty)
  have t: "timers (clear ?h) = []" using p by (rule clear_timers)
  have q: "fetchCalls (run delay (clear ?h) later) = fetchCalls (clear ?h)"
    using quiet_run [OF t assms(2)] by simp
  show ?thesis by (simp add: s t q clear_fields initialState_def)
qed

theorem empty_submit_clears_witness:
  "trim (js ''  '') = []
   \<and> timers (run 400 initialHook
       [Search (js ''em''), Advance 400, Settle 0 (Resolved [book ''Emma'']),
        Search (js ''emm'')]) =
       [\<lparr>tid = 1, due = 800, tquery = js ''emm''\<rparr>]
   \<and> state (search 400 (js ''  '') (run 400 initialHook
       [Search (js ''em''), Advance 400, Settle 0 (Resolved [book ''Emma'']),
        Search (js ''emm'')])) =
       \<lparr>status = Idle, query = [], results = [], error = None\<rparr>
   \<and> timers (search 400 (js ''  '') (run 400 initialHook
       [Search (js ''em''), Advance 400, Settle 0 (Resolved [book ''Emma'']),
        Search (js ''emm'')])) = []
   \<and> fetchCalls (run 400 (search 400 (js ''  '') (run 400 initialHook
       [Search (js ''em''), Advance 400, Settle 0 (Resolved [book ''Emma'']),
        Search (js ''emm'')])) [Advance 1000]) = [js ''em'']"
proof -
  have e: "trim (js ''  '') = []" by (simp add: hook_eval)
  have l: "\<forall>ev \<in> set [Advance 1000]. \<not> isSearch ev" by simp
  have f: "fetchCalls (run 400 initialHook
       [Search (js ''em''), Advance 400, Settle 0 (Resolved [book ''Emma'']),
        Search (js ''emm'')]) = [js ''em'']"
    and t: "timers (run 400 initialHook
       [Search (js ''em''), Advance 400, Settle 0 (Resolved [book ''Emma'']),
        Search (js ''emm'')]) = [\<lparr>tid = 1, due = 800, tquery = js ''emm''\<rparr>]"
    by (simp_all add: hook_eval)
  show ?thesis
    using empty_submit_clears [OF e l, of 400
      "[Search (js ''em''), Advance 400, Settle 0 (Resolved [book ''Emma'']),
        Search (js ''emm'')]"]
    by (simp add: e f t)
qed


subsection \<open>C8: what the fetch function is called with\<close>

text \<open>
  C8. Every call of the fetch function made in any run of the hook has as its argument
  the trimmed text of some submission; the argument is not empty and has no white space
  at either end (trimming it again changes nothing). A submission whose text is
  non-empty after trimming sets the query of the state to the text as submitted, and
  when time passes in a reachable state, the fetch function is either not called or
  called once with the trimmed form of the query that the state holds, which stays as
  it is.
\<close>

theorem fetch_argument_trimmed:
  "(\<forall>q \<in> set (fetchCalls (run delay initialHook evs)).
      q \<noteq> [] \<and> trim q = q \<and> (\<exists>rawQuery. Search rawQuery \<in> set evs \<and> q = trim rawQuery))
   \<and> (trim rawQuery \<noteq> [] \<longrightarrow> query (state (search delay rawQuery h)) = rawQuery)
   \<and> (fetchCalls (advance d (run delay initialHook evs)) =
         fetchCalls (run delay initialHook evs)
      \<or> fetchCalls (advance d (run delay initialHook evs)) =
         fetchCalls (run delay initialHook evs) @
           [trim (query (state (run delay initialHook evs)))])
   \<and> query (state (advance d (run delay initialHook evs))) =
       query (state (run delay initialHook evs))"
proof -
  let ?h = "run delay initialHook evs"
  have 1: "q \<noteq> [] \<and> trim q = q \<and> (\<exists>rawQuery. Search rawQuery \<in> set evs \<and> q = trim rawQuery)"
    if "q \<in> set (fetchCalls ?h)" for q
  proof -
    from that run_queries [of delay evs]
    obtain raw where "q \<noteq> []" and "Search raw \<in> set evs" and "q = trim raw" by auto
    then show ?thesis by (auto simp: trim_idem)
  qed
  have 2: "query (state (search delay rawQuery h)) = rawQuery" if "trim rawQuery \<noteq> []"
    using that
    by (simp add: search_def Let_def dispatch_def clearTimeout_def setTimeout_def
        split: option.splits)
  have "pendingOk ?h" by (simp add: run_pendingOk initial_pendingOk)
  then have p: "length (timers ?h) \<le> 1" by (rule pendingOk_length)
  have q: "timerQueryOk ?h" by (rule run_timerQueryOk)
  have 3: "fetchCalls (advance d ?h) = fetchCalls ?h
      \<or> fetchCalls (advance d ?h) = fetchCalls ?h @ [trim (query (state ?h))]"
  proof (cases "timers ?h")
    case Nil
    then show ?thesis by (simp add: advance_def Let_def)
  next
    case (Cons t ts)
    with p have t: "timers ?h = [t]" by simp
    with q have tq: "tquery t = trim (query (state ?h))" by (simp add: timerQueryOk_def)
    show ?thesis
    proof (cases "due t \<le> now ?h + d")
      case True
      with t have "fetchCalls (advance d ?h) = fetchCalls ?h @ [tquery t]"
        by (rule advance_late)
      then show ?thesis by (simp add: tq)
    next
      case False
      then have lt: "now ?h + d < due t" by simp
      have "advance d ?h = ?h\<lparr>now := now ?h + d\<rparr>"
        using t lt by (rule advance_early)
      then show ?thesis by simp
    qed
  qed
  show ?thesis using 1 2 3 advance_query by blast
qed

theorem fetch_argument_trimmed_witness:
  "fetchCalls (run 400 initialHook [Search (js '' em ''), Advance 400]) = [js ''em'']
   \<and> js ''em'' \<noteq> []
   \<and> trim (js ''em'') = js ''em''
   \<and> trim (js '' em '') \<noteq> []
   \<and> query (state (search 400 (js '' em '') initialHook)) = js '' em ''
   \<and> query (state (run 400 initialHook [Search (js '' em '')])) = js '' em ''
   \<and> fetchCalls (advance 400 (run 400 initialHook [Search (js '' em '')])) = [js ''em'']"
proof -
  have m: "fetchCalls (run 400 initialHook [Search (js '' em ''), Advance 400]) = [js ''em'']"
    by (simp add: hook_eval)
  have ne: "trim (js '' em '') \<noteq> []" by (simp add: hook_eval)
  have s: "query (state (run 400 initialHook [Search (js '' em '')])) = js '' em ''"
    by (simp add: hook_eval)
  have a: "fetchCalls (advance 400 (run 400 initialHook [Search (js '' em '')])) = [js ''em'']"
    by (simp add: hook_eval)
  note th = fetch_argument_trimmed [of 400 "[Search (js '' em ''), Advance 400]" "js '' em ''"
      initialHook]
  from th have "\<forall>q \<in> set (fetchCalls (run 400 initialHook [Search (js '' em ''), Advance 400])).
      q \<noteq> [] \<and> trim q = q"
    by blast
  then have b: "js ''em'' \<noteq> [] \<and> trim (js ''em'') = js ''em''" unfolding m by simp
  from th ne have c: "query (state (search 400 (js '' em '') initialHook)) = js '' em ''"
    by blast
  show ?thesis using m b ne c s a by blast
qed


section \<open>Properties of the navigation\<close>

subsection \<open>C3: Escape\<close>

text \<open>
  C3, as stated, asks that Escape close the dropdown and leave query and results as they
  were. In both surfaces Escape is wired to \<open>handleClear\<close> (\<^verbatim>\<open>onClear\<close> of the input,
  \<^verbatim>\<open>onClose\<close> of the list), which calls \<open>clear\<close> of the hook. Here three results are
  shown and the second one is active; Escape, in the input or on the active item, empties
  both the query and the results.
\<close>

theorem escape_counterexample:
  "activeIndex browsing = 1
   \<and> query (state (hook browsing)) = js ''em''
   \<and> query (state (hook (appStep browsing (InputKeyDown Escape)))) = []
   \<and> query (state (hook (appStep browsing (ItemKeyDown Escape 1)))) = []
   \<and> results (state (hook browsing)) = [book ''Emma'', book ''Emil'', book ''Embers'']
   \<and> results (state (hook (appStep browsing (InputKeyDown Escape)))) = []
   \<and> results (state (hook (appStep browsing (ItemKeyDown Escape 1)))) = []"
  by (simp add: browsing_eq app_eval hook_eval)

text \<open>
  C3, amended. For every state of the widget with any active index, Escape in the input
  or on an item of the list closes the dropdown (\<open>isOpen\<close> false, \<open>activeIndex\<close> \<open>-1\<close>)
  and resets the search state to its initial values: status idle, query \<open>""\<close>, no
  results, no error.
\<close>

theorem escape_clears:
  "isOpen (SearchInput_handleKeyDown Escape a) = False
   \<and> activeIndex (SearchInput_handleKeyDown Escape a) = - 1
   \<and> state (hook (SearchInput_handleKeyDown Escape a)) =
       \<lparr>status = Idle, query = [], results = [], error = None\<rparr>
   \<and> isOpen (SearchResults_handleKeyDown Escape i a) = False
   \<and> activeIndex (SearchResults_handleKeyDown Escape i a) = - 1
   \<and> state (hook (SearchResults_handleKeyDown Escape i a)) =
       \<lparr>status = Idle, query = [], results = [], error = None\<rparr>"
  by (simp add: SearchInput_handleKeyDown_def SearchResults_handleKeyDown_def
      handleClear_fields initialState_def)

theorem escape_clears_witness:
  "state (hook browsing) =
       \<lparr>status = Success, query = js ''em'',
        results = [book ''Emma'', book ''Emil'', book ''Embers''], error = None\<rparr>
   \<and> isOpen (SearchInput_handleKeyDown Escape browsing) = False
   \<and> activeIndex (SearchInput_handleKeyDown Escape browsing) = - 1
   \<and> state (hook (SearchInput_handleKeyDown Escape browsing)) =
       \<lparr>status = Idle, query = [], results = [], error = None\<rparr>
   \<and> state (hook (SearchResults_handleKeyDown Escape 1 browsing)) =
       \<lparr>status = Idle, query = [], results = [], error = None\<rparr>"
  using escape_clears [of browsing 1] by (simp add: browsing_eq)


subsection \<open>C4: the range of the active index\<close>

text \<open>
  C4, as stated, asks that the active index stay within \<open>[-1, results.length - 1]\<close>
  after every sequence of operations, and be reset to \<open>-1\<close> whenever the results are
  replaced or become empty. The active index is set by the handlers of the widget only;
  the reducer replaces the results when a fetch settles and nothing resets the index
  then. Here the user types on while three results are held, presses the down arrow in
  the input (index 0), and the new fetch returns no results.
\<close>

theorem activeIndex_range_counterexample:
  "activeIndex staleHighlight = 0
   \<and> results (state (hook staleHighlight)) = []
   \<and> \<not> activeIndex staleHighlight \<le> int (length (results (state (hook staleHighlight)))) - 1"
  by (simp add: staleHighlight_def app_eval hook_eval)

text \<open>
  C4, amended. After every sequence of operations the active index is at least \<open>-1\<close>.
  From any state in which it lies within \<open>[-1, results.length - 1]\<close>, it still does
  after every sequence of navigation and search operations in which no fetch settles:
  typing, the keys of the input and of the list, clicks, and the passing of time; in
  particular, where such an operation empties the results the index is \<open>-1\<close> afterwards.
  (The settling of a fetch replaces the results and leaves the index as it was.)
\<close>

theorem activeIndex_range_between_fetches:
  "- 1 \<le> activeIndex (appRun initialApp evs)
   \<and> (inRange a \<and> (\<forall>ev \<in> set evs'. \<not> isFetchSettles ev) \<longrightarrow> inRange (appRun a evs'))
   \<and> activeIndex (appStep a (FetchSettles i out)) = activeIndex a"
proof -
  have "- 1 \<le> activeIndex initialApp" by (simp add: initialApp_def)
  then have lower: "- 1 \<le> activeIndex (appRun initialApp evs)" by (rule appRun_lower)
  have kept: "inRange (appRun a evs')"
    if "inRange a" and "\<forall>ev \<in> set evs'. \<not> isFetchSettles ev"
    using that by (rule appRun_inRange)
  have settled: "activeIndex (appStep a (FetchSettles i out)) = activeIndex a" by simp
  show ?thesis using lower kept settled by blast
qed

theorem activeIndex_range_between_fetches_witness:
  "inRange browsing
   \<and> activeIndex (appRun browsing [ItemKeyDown ArrowDown 1, ItemKeyDown ArrowDown 2]) = 2
   \<and> inRange (appRun browsing [ItemKeyDown ArrowDown 1, ItemKeyDown ArrowDown 2])
   \<and> results (state (hook (appRun browsing [ItemKeyDown ArrowDown 1, InputChange []]))) = []
   \<and> activeIndex (appRun browsing [ItemKeyDown ArrowDown 1, InputChange []]) = - 1
   \<and> inRange (appRun browsing [ItemKeyDown ArrowDown 1, InputChange []])"
proof -
  have r: "inRange browsing" by (simp add: inRange_def browsing_eq)
  have 1: "inRange (appRun browsing [ItemKeyDown ArrowDown 1, ItemKeyDown ArrowDown 2])"
    using activeIndex_range_between_fetches
      [of "[]" browsing "[ItemKeyDown ArrowDown 1, ItemKeyDown ArrowDown 2]"] r
    by simp
  have 2: "inRange (appRun browsing [ItemKeyDown ArrowDown 1, InputChange []])"
    using activeIndex_range_between_fetches
      [of "[]" browsing "[ItemKeyDown ArrowDown 1, InputChange []]"] r
    by simp
  have 3: "activeIndex (appRun browsing [ItemKeyDown ArrowDown 1, ItemKeyDown ArrowDown 2]) = 2"
    by (simp add: browsing_eq app_eval hook_eval)
  have 4: "results (state (hook (appRun browsing [ItemKeyDown ArrowDown 1, InputChange []]))) = []"
    by (simp add: browsing_eq app_eval hook_eval)
  have 5: "activeIndex (appRun browsing [ItemKeyDown ArrowDown 1, InputChange []]) = - 1"
    by (simp add: browsing_eq app_eval hook_eval)
  show ?thesis using r 1 2 3 4 5 by blast
qed


subsection \<open>C7: the arrow keys in the list\<close>

text \<open>
  C7, as stated, asks that the down arrow and the up arrow on an item move the active
  index by \<open>+1\<close> and \<open>-1\<close> clamped to \<open>[0, results.length - 1]\<close>, for every starting
  index. The up arrow computes \<^verbatim>\<open>Math.max(prev - 1, 0)\<close>, with no upper bound, and the down
  arrow \<^verbatim>\<open>Math.min(prev + 1, results.length - 1)\<close>, with no lower bound. Here the list is
  rendered with a single result while the active index is still 2, left by the three
  results shown before an older fetch settled; the up arrow gives 1, outside \<open>[0, 0]\<close>.
\<close>

theorem list_navigation_counterexample:
  "listRendered staleIndex
   \<and> results (state (hook staleIndex)) = [book ''Emma'']
   \<and> activeIndex staleIndex = 2
   \<and> results (state (hook (appStep staleIndex (ItemKeyDown ArrowUp 0)))) = [book ''Emma'']
   \<and> activeIndex (appStep staleIndex (ItemKeyDown ArrowUp 0)) = 1
   \<and> \<not> activeIndex (appStep staleIndex (ItemKeyDown ArrowUp 0)) \<le>
         int (length (results (state (hook (appStep staleIndex (ItemKeyDown ArrowUp 0)))))) - 1"
  by (simp add: staleIndex_def app_eval hook_eval)

text \<open>
  C7, amended. On an item of the list, the down arrow sets the active index to the
  smaller of \<open>prev + 1\<close> and \<open>results.length - 1\<close>, and the up arrow to the larger of
  \<open>prev - 1\<close> and \<open>0\<close>; neither touches the search state. For every starting index
  whatever and every number of repetitions (at least one key press), the down arrow
  never takes the active index above \<open>results.length - 1\<close> (no wraparound) and the up
  arrow never takes it below \<open>0\<close>. For every starting index from \<open>-1\<close> to
  \<open>results.length\<close> of a non-empty list, one key press moves the index by \<open>+1\<close> or
  \<open>-1\<close> clamped to \<open>[0, results.length - 1]\<close>, and repeated presses stay within that
  range.
\<close>

theorem list_navigation_clamped:
  "activeIndex (SearchResults_handleKeyDown ArrowDown i a) =
     min (activeIndex a + 1) (int (length (results (state (hook a)))) - 1)
   \<and> activeIndex (SearchResults_handleKeyDown ArrowUp i a) = max (activeIndex a - 1) 0
   \<and> activeIndex ((SearchResults_handleKeyDown ArrowDown i ^^ Suc n) a) =
       min (activeIndex a + int (Suc n)) (int (length (results (state (hook a)))) - 1)
   \<and> activeIndex ((SearchResults_handleKeyDown ArrowUp i ^^ Suc n) a) =
       max (activeIndex a - int (Suc n)) 0
   \<and> hook ((SearchResults_handleKeyDown ArrowDown i ^^ Suc n) a) = hook a
   \<and> hook ((SearchResults_handleKeyDown ArrowUp i ^^ Suc n) a) = hook a
   \<and> activeIndex ((SearchResults_handleKeyDown ArrowDown i ^^ Suc n) a) \<le>
       int (length (results (state (hook a)))) - 1
   \<and> 0 \<le> activeIndex ((SearchResults_handleKeyDown ArrowUp i ^^ Suc n) a)
   \<and> (- 1 \<le> activeIndex a \<and> activeIndex a \<le> int (length (results (state (hook a)))) \<and>
       results (state (hook a)) \<noteq> [] \<longrightarrow>
         activeIndex (SearchResults_handleKeyDown ArrowDown i a) =
           max 0 (min (int (length (results (state (hook a)))) - 1) (activeIndex a + 1))
       \<and> activeIndex (SearchResults_handleKeyDown ArrowUp i a) =
           max 0 (min (int (length (results (state (hook a)))) - 1) (activeIndex a - 1))
       \<and> 0 \<le> activeIndex ((SearchResults_handleKeyDown ArrowDown i ^^ Suc n) a)
       \<and> activeIndex ((SearchResults_handleKeyDown ArrowUp i ^^ Suc n) a) \<le>
           int (length (results (state (hook a)))) - 1)"
proof -
  let ?L = "int (length (results (state (hook a))))"
  have d: "activeIndex ((SearchResults_handleKeyDown ArrowDown i ^^ Suc n) a) =
      min (activeIndex a + int (Suc n)) (?L - 1)"
    and dh: "hook ((SearchResults_handleKeyDown ArrowDown i ^^ Suc n) a) = hook a"
    using down_iterated by blast+
  have u: "activeIndex ((SearchResults_handleKeyDown ArrowUp i ^^ Suc n) a) =
      max (activeIndex a - int (Suc n)) 0"
    and uh: "hook ((SearchResults_handleKeyDown ArrowUp i ^^ Suc n) a) = hook a"
    using up_iterated by blast+
  have d1: "activeIndex (SearchResults_handleKeyDown ArrowDown i a) =
      min (activeIndex a + 1) (?L - 1)"
    by (simp add: SearchResults_handleKeyDown_def Let_def)
  have u1: "activeIndex (SearchResults_handleKeyDown ArrowUp i a) = max (activeIndex a - 1) 0"
    by (simp add: SearchResults_handleKeyDown_def Let_def)
  have ne: "results (state (hook a)) \<noteq> [] \<Longrightarrow> 1 \<le> ?L"
    by (cases "results (state (hook a))") simp_all
  show ?thesis unfolding d u d1 u1 dh uh using ne by auto
qed

theorem list_navigation_clamped_witness:
  "- 1 \<le> activeIndex (browsing\<lparr>activeIndex := - 1\<rparr>)
   \<and> results (state (hook (browsing\<lparr>activeIndex := - 1\<rparr>))) \<noteq> []
   \<and> int (length (results (state (hook (browsing\<lparr>activeIndex := - 1\<rparr>))))) - 1 = 2
   \<and> activeIndex (SearchResults_handleKeyDown ArrowDown 0 (browsing\<lparr>activeIndex := - 1\<rparr>)) = 0
   \<and> activeIndex ((SearchResults_handleKeyDown ArrowDown 0 ^^ Suc 2)
        (browsing\<lparr>activeIndex := - 1\<rparr>)) = 2
   \<and> activeIndex ((SearchResults_handleKeyDown ArrowDown 0 ^^ Suc 3)
        (browsing\<lparr>activeIndex := - 1\<rparr>)) = 2
   \<and> activeIndex ((SearchResults_handleKeyDown ArrowUp 0 ^^ Suc 3)
        (browsing\<lparr>activeIndex := - 1\<rparr>)) = 0"
proof -
  let ?a = "browsing\<lparr>activeIndex := - 1\<rparr>"
  have s: "activeIndex ?a = - 1" by simp
  have r: "results (state (hook browsing)) = [book ''Emma'', book ''Emil'', book ''Embers'']"
    by (simp add: browsing_eq)
  note t2 = list_navigation_clamped [where i = 0 and n = 2 and a = ?a]
  note t3 = list_navigation_clamped [where i = 0 and n = 3 and a = ?a]
  from t2 have 1: "activeIndex (SearchResults_handleKeyDown ArrowDown 0 ?a) = 0"
    by (simp add: s r)
  from t2 have 2: "activeIndex ((SearchResults_handleKeyDown ArrowDown 0 ^^ Suc 2) ?a) = 2"
    by (simp add: s r)
  from t3 have 3: "activeIndex ((SearchResults_handleKeyDown ArrowDown 0 ^^ Suc 3) ?a) = 2"
    by (simp add: s r)
  from t3 have 4: "activeIndex ((SearchResults_handleKeyDown ArrowUp 0 ^^ Suc 3) ?a) = 0"
    by (simp add: s r)
  show ?thesis using 1 2 3 4 by (simp add: r)
qed


subsection \<open>C9: when the dropdown is rendered\<close>

text \<open>
  C9. For every state of the widget, the dropdown is rendered exactly when \<open>isOpen\<close>
  holds and the trimmed query is not empty; if the query trims to the empty string, no
  dropdown is rendered, whatever \<open>isOpen\<close> is.
\<close>

theorem dropdown_visibility:
  "(dropdown a \<noteq> None) = (isOpen a \<and> trim (query (state (hook a))) \<noteq> [])
   \<and> showDropdown a = (isOpen a \<and> trim (query (state (hook a))) \<noteq> [])
   \<and> (trim (query (state (hook a))) = [] \<longrightarrow> dropdown a = None)"
  by (simp add: dropdown_def showDropdown_def Let_def)

theorem dropdown_visibility_witness:
  "isOpen (appRun initialApp [InputChange (js ''em''), InputChange []]) = True
   \<and> trim (query (state (hook (appRun initialApp [InputChange (js ''em''), InputChange []])))) = []
   \<and> dropdown (appRun initialApp [InputChange (js ''em''), InputChange []]) = None
   \<and> dropdown browsing =
       Some [ResultsList [book ''Emma'', book ''Emil'', book ''Embers''] 1]"
proof -
  have q: "trim (query (state (hook (appRun initialApp
      [InputChange (js ''em''), InputChange []])))) = []"
    by (simp add: app_eval hook_eval)
  have o: "isOpen (appRun initialApp [InputChange (js ''em''), InputChange []]) = True"
    by (simp add: app_eval hook_eval)
  have b: "dropdown browsing =
       Some [ResultsList [book ''Emma'', book ''Emil'', book ''Embers''] 1]"
    by (simp add: browsing_eq dropdown_def showDropdown_def hook_eval)
  show ?thesis
    using dropdown_visibility [of "appRun initialApp [InputChange (js ''em''), InputChange []]"]
      q o b
    by blast
qed


subsection \<open>C10: committing a selection\<close>

text \<open>
  C10. In every reachable state of the widget, a click on a rendered item, or Enter on
  it, calls \<open>handleSelect\<close> with that result. \<open>handleSelect\<close> closes the dropdown and
  submits the title of the result: when the title is non-empty after trimming, the query
  becomes the title, no fetch is issued at once, the only pending timer is a new one due
  400 ms later with the trimmed title, and once 400 ms or more have passed a fetch for
  the trimmed title has been issued and the status is loading.
\<close>

theorem select_triggers_fetch:
  assumes "trim (title r) \<noteq> []" and "400 \<le> d"
  shows "isOpen (handleSelect r (appRun initialApp evs)) = False
       \<and> activeIndex (handleSelect r (appRun initialApp evs)) = - 1
       \<and> query (state (hook (handleSelect r (appRun initialApp evs)))) = title r
       \<and> timers (hook (handleSelect r (appRun initialApp evs))) =
           [\<lparr>tid = nextTimer (hook (appRun initialApp evs)),
             due = now (hook (appRun initialApp evs)) + 400,
             tquery = trim (title r)\<rparr>]
       \<and> fetchCalls (hook (handleSelect r (appRun initialApp evs))) =
           fetchCalls (hook (appRun initialApp evs))
       \<and> fetchCalls (hook (appStep (handleSelect r (appRun initialApp evs)) (TimePasses d))) =
           fetchCalls (hook (appRun initialApp evs)) @ [trim (title r)]
       \<and> status (state (hook (appStep (handleSelect r (appRun initialApp evs)) (TimePasses d)))) =
           Loading
       \<and> (listRendered (appRun initialApp evs) \<and>
          i < length (results (state (hook (appRun initialApp evs)))) \<longrightarrow>
            appStep (appRun initialApp evs) (ItemClick i) =
              handleSelect (results (state (hook (appRun initialApp evs))) ! i)
                (appRun initialApp evs)
          \<and> appStep (appRun initialApp evs) (ItemKeyDown Enter i) =
              handleSelect (results (state (hook (appRun initialApp evs))) ! i)
                (appRun initialApp evs))"
proof -
  let ?a = "appRun initialApp evs"
  let ?h = "search 400 (title r) (hook ?a)"
  let ?t = "\<lparr>tid = nextTimer (hook ?a), due = now (hook ?a) + 400, tquery = trim (title r)\<rparr>"
  have p: "pendingOk (hook ?a)" by (simp add: appRun_pendingOk initialApp_pendingOk)
  have hs: "hook (handleSelect r ?a) = ?h" by (simp add: handleSelect_def)
  have ts: "timers ?h = [?t]" using p assms(1) by (rule search_nonempty)
  have ns: "now ?h = now (hook ?a)" using p assms(1) by (rule search_nonempty)
  have fs: "fetchCalls ?h = fetchCalls (hook ?a)" using p assms(1) by (rule search_nonempty)
  have qs: "state ?h = (state (hook ?a))\<lparr>query := title r\<rparr>"
    using p assms(1) by (rule search_nonempty)
  have due: "due ?t \<le> now ?h + d" using assms(2) by (simp add: ns)
  have l1: "fetchCalls (advance d ?h) = fetchCalls ?h @ [tquery ?t]"
    using ts due by (rule advance_late)
  have l2: "status (state (advance d ?h)) = Loading"
    using ts due by (rule advance_late)
  have w: "appStep ?a (ItemKeyDown Enter i) =
      handleSelect (results (state (hook ?a)) ! i) ?a"
    if "listRendered ?a" and "i < length (results (state (hook ?a)))"
    using that by (simp add: SearchResults_handleKeyDown_def Let_def)
  have 1: "isOpen (handleSelect r ?a) = False" and 2: "activeIndex (handleSelect r ?a) = - 1"
    by (simp_all add: handleSelect_def)
  show ?thesis using w by (simp add: 1 2 hs ts fs qs l1 l2)
qed

theorem select_triggers_fetch_witness:
  "trim (title (book ''Emma'')) = js ''Emma''
   \<and> listRendered browsing
   \<and> appStep browsing (ItemKeyDown Enter 0) = handleSelect (book ''Emma'') browsing
   \<and> appStep browsing (ItemClick 0) = handleSelect (book ''Emma'') browsing
   \<and> isOpen (handleSelect (book ''Emma'') browsing) = False
   \<and> fetchCalls (hook (handleSelect (book ''Emma'') browsing)) = [js ''em'']
   \<and> fetchCalls (hook (appStep (handleSelect (book ''Emma'') browsing) (TimePasses 400))) =
       [js ''em'', js ''Emma'']"
proof -
  have t: "trim (title (book ''Emma'')) = js ''Emma''" by (simp add: book_def hook_eval)
  have ne: "trim (title (book ''Emma'')) \<noteq> []" by (simp add: book_def hook_eval)
  have d: "(400::nat) \<le> 400" by simp
  have r: "listRendered browsing"
    by (simp add: browsing_eq listRendered_def showDropdown_def hook_eval)
  have i: "0 < length (results (state (hook browsing)))" by (simp add: browsing_eq)
  have n: "results (state (hook browsing)) ! 0 = book ''Emma''" by (simp add: browsing_eq)
  have f: "fetchCalls (hook browsing) = [js ''em'']" by (simp add: browsing_eq)
  show ?thesis
    using select_triggers_fetch
      [OF ne d, where i = 0 and evs = "[InputChange (js ''em''), TimePasses 400,
        FetchSettles 0 (Resolved [book ''Emma'', book ''Emil'', book ''Embers'']),
        InputKeyDown ArrowDown, ItemKeyDown ArrowDown 0]", folded browsing_def]
      t r i n f
    by simp
qed

end
